theory Spec2Isabelle
  imports Main "HOL-Library.Sublist"
begin

section \<open>IntelliDoc: a shallow embedding of \<^verbatim>\<open>app.py\<close>\<close>

text \<open>
  The application is a Streamlit script. Its session state holds two entries, the
  retrieval chain (\<^verbatim>\<open>conversation\<close>) and the list of turns
  (\<^verbatim>\<open>chat_history\<close>). Each run of \<^verbatim>\<open>main\<close> handles one user
  interaction: the Process button, the Clear button or a submitted question.
  External collaborators (the PDF reader, the embedding index, the language model) are
  parameters of the model; an exception they raise is a value of type \<open>error\<close>.
  A \<open>char\<close> stands for one character of a Python string.
\<close>

subsection \<open>Data\<close>

datatype error = Exception string

text \<open>\<^verbatim>\<open>Document(page_content=..., metadata={'source': ..., 'page': ...})\<close>\<close>

record document =
  page_content :: string
  meta_source :: string
  meta_page :: nat

text \<open>
  An entry of \<^verbatim>\<open>chat_history\<close>: the \<^verbatim>\<open>SystemMessage\<close> object, the pair
  \<^verbatim>\<open>("human", text)\<close> or the triple \<^verbatim>\<open>("ai", text, docs)\<close>.
\<close>

datatype message =
    SystemMessage string
  | Human string
  | AI string "document list"

text \<open>
  A generator: it yields values and then either finishes or raises. The chain's stream
  yields dictionaries with some of the keys \<^verbatim>\<open>input\<close>, \<^verbatim>\<open>chat_history\<close>,
  \<^verbatim>\<open>context\<close> and \<^verbatim>\<open>answer\<close>.
\<close>

datatype 'a generator = Done | Yield 'a "'a generator" | Raise error

record chunk =
  ch_input :: "string option"
  ch_chat_history :: "message list option"
  ch_context :: "document list option"
  ch_answer :: "string option"

type_synonym chain = "message list \<Rightarrow> string \<Rightarrow> chunk generator"

record session_state =
  conversation :: "chain option"
  chat_history :: "message list"

text \<open>What a run of the script shows or does besides updating the session state.\<close>

datatype outcome = Idle | Rerun | Warning string | Success string | Raised error

text \<open>An uploaded file: its name and what reading it gives, either the exception that
  \<^verbatim>\<open>PdfReader(pdf)\<close> or an \<^verbatim>\<open>extract_text()\<close> raises (it leaves the
  function, which has no handler), or the strings \<^verbatim>\<open>extract_text()\<close> returns for
  the pages of \<^verbatim>\<open>pdf_reader.pages\<close>, in order.\<close>

record uploaded_file =
  file_name :: string
  pdf_reader :: "error + string list"

subsection \<open>\<^verbatim>\<open>get_pdf_text_and_metadata\<close>\<close>

text \<open>The inner loop over \<^verbatim>\<open>enumerate(pdf_reader.pages)\<close>; \<^verbatim>\<open>if text\<close>
  holds for every string but the empty one.\<close>

fun page_loop :: "string \<Rightarrow> nat \<Rightarrow> string list \<Rightarrow> document list \<Rightarrow> document list" where
  "page_loop nm page_num [] documents = documents"
| "page_loop nm page_num (text # rest) documents =
     page_loop nm (page_num + 1) rest
       (if text \<noteq> [] then
          documents @ [\<lparr>page_content = text, meta_source = nm, meta_page = page_num + 1\<rparr>]
        else documents)"

fun pdf_loop :: "uploaded_file list \<Rightarrow> document list \<Rightarrow> error + document list" where
  "pdf_loop [] documents = Inr documents"
| "pdf_loop (pdf # rest) documents =
     (case pdf_reader pdf of
        Inl e \<Rightarrow> Inl e
      | Inr pages \<Rightarrow> pdf_loop rest (page_loop (file_name pdf) 0 pages documents))"

definition get_pdf_text_and_metadata :: "uploaded_file list \<Rightarrow> error + document list" where
  "get_pdf_text_and_metadata pdf_docs = pdf_loop pdf_docs []"

text \<open>Python's \<^verbatim>\<open>str.isspace\<close> on the code points below 256: the ASCII
  white space and the separators, next line (U+0085) and no-break space (U+00A0).\<close>

definition is_space :: "char \<Rightarrow> bool" where
  "is_space c = (c \<in> set [CHR '' '', CHR 0x09, CHR 0x0A, CHR 0x0B, CHR 0x0C, CHR 0x0D,
                          CHR 0x1C, CHR 0x1D, CHR 0x1E, CHR 0x1F, CHR 0x85, CHR 0xA0])"

definition whitespace_only :: "string \<Rightarrow> bool" where
  "whitespace_only s = (s \<noteq> [] \<and> list_all is_space s)"

subsection \<open>The conversation state in \<^verbatim>\<open>main\<close>\<close>

definition greeting :: string where
  "greeting = ''Hello! I'm IntelliDoc. Upload your documents to get started.''"

text \<open>Lines 86 to 91: the state of a fresh session.\<close>

definition initial_state :: session_state where
  "initial_state = \<lparr>conversation = None, chat_history = [SystemMessage greeting]\<rparr>"

text \<open>Lines 110 to 114: the Clear Chat History button.\<close>

definition main_clear :: "session_state \<Rightarrow> session_state \<times> outcome" where
  "main_clear st = (st\<lparr>chat_history := [SystemMessage greeting]\<rparr>, Rerun)"

text \<open>Line 158: the generator expression over the stream, and \<^verbatim>\<open>st.write_stream\<close>,
  which consumes it and returns the concatenation of the fragments.\<close>

fun answers :: "chunk generator \<Rightarrow> string generator" where
  "answers Done = Done"
| "answers (Raise e) = Raise e"
| "answers (Yield c g) =
     (case ch_answer c of Some a \<Rightarrow> Yield a (answers g) | None \<Rightarrow> answers g)"

fun write_stream :: "string generator \<Rightarrow> error + string" where
  "write_stream Done = Inr []"
| "write_stream (Raise e) = Inl e"
| "write_stream (Yield s g) =
     (case write_stream g of Inl e \<Rightarrow> Inl e | Inr r \<Rightarrow> Inr (s @ r))"

text \<open>Lines 147 to 164: a submitted question. \<^verbatim>\<open>st.chat_input\<close> gives
  \<^verbatim>\<open>None\<close> or a string; an exception of the stream leaves \<^verbatim>\<open>main\<close> before
  the two appends.\<close>

definition main_question :: "string option \<Rightarrow> session_state \<Rightarrow> session_state \<times> outcome" where
  "main_question user_question st =
     (case user_question of
        None \<Rightarrow> (st, Idle)
      | Some q \<Rightarrow>
          if q = [] then (st, Idle)
          else (case conversation st of
                  None \<Rightarrow> (st, Warning ''Please upload and process your documents first.'')
                | Some conv \<Rightarrow>
                    (case write_stream (answers (conv (chat_history st) q)) of
                       Inl e \<Rightarrow> (st, Raised e)
                     | Inr response \<Rightarrow>
                         (st\<lparr>chat_history := chat_history st @ [Human q, AI response []]\<rparr>,
                          Rerun))))"

text \<open>Lines 140 to 143: the citations rendered under an AI turn, as the set of
  (source, page) pairs that determine the rendered labels.\<close>

fun rendered_sources :: "message \<Rightarrow> (string \<times> nat) set" where
  "rendered_sources (AI text docs) = set (map (\<lambda>doc. (meta_source doc, meta_page doc)) docs)"
| "rendered_sources _ = {}"

text \<open>The documents a stream passed on under the key \<^verbatim>\<open>context\<close>, and the error
  a stream ends with, if it raises.\<close>

fun stream_context :: "chunk generator \<Rightarrow> document list" where
  "stream_context Done = []"
| "stream_context (Raise e) = []"
| "stream_context (Yield c g) =
     (case ch_context c of Some docs \<Rightarrow> docs @ stream_context g | None \<Rightarrow> stream_context g)"

fun raised :: "'a generator \<Rightarrow> error option" where
  "raised Done = None"
| "raised (Raise e) = Some e"
| "raised (Yield x g) = raised g"

subsection \<open>\<^verbatim>\<open>get_text_chunks\<close>: LangChain's \<^verbatim>\<open>CharacterTextSplitter\<close>\<close>

text \<open>
  \<^verbatim>\<open>get_text_chunks\<close> configures the library's \<^verbatim>\<open>CharacterTextSplitter\<close> with
  separator \<^verbatim>\<open>"\n"\<close>, \<^verbatim>\<open>chunk_size=1000\<close>, \<^verbatim>\<open>chunk_overlap=200\<close> and
  \<^verbatim>\<open>length_function=len\<close> and calls \<^verbatim>\<open>split_documents\<close>. The splitter is the
  library's: \<^verbatim>\<open>split_text\<close> splits the text at the separator, drops the empty
  pieces and hands the rest to \<^verbatim>\<open>_merge_splits\<close>, which packs pieces into
  \<^verbatim>\<open>current_doc\<close> and keeps \<^verbatim>\<open>total\<close>, the length of their join.
\<close>

record splitter =
  separator :: char
  chunk_size :: int
  chunk_overlap :: int

text \<open>\<^verbatim>\<open>text.split(separator)\<close> for a separator of one character.\<close>

fun split_on :: "char \<Rightarrow> string \<Rightarrow> string list" where
  "split_on sep [] = [[]]"
| "split_on sep (c # cs) =
     (if c = sep then [] # split_on sep cs
      else (case split_on sep cs of [] \<Rightarrow> [[c]] | w # ws \<Rightarrow> (c # w) # ws))"

text \<open>\<^verbatim>\<open>separator.join(docs)\<close> and \<^verbatim>\<open>text.strip()\<close>.\<close>

fun join :: "string \<Rightarrow> string list \<Rightarrow> string" where
  "join sep [] = []"
| "join sep [x] = x"
| "join sep (x # y # ys) = x @ sep @ join sep (y # ys)"

definition strip :: "string \<Rightarrow> string" where
  "strip s = rev (dropWhile is_space (rev (dropWhile is_space s)))"

text \<open>\<^verbatim>\<open>_join_docs\<close>: \<^verbatim>\<open>None\<close> when the stripped join is empty.\<close>

definition join_docs :: "splitter \<Rightarrow> string list \<Rightarrow> string option" where
  "join_docs sp docs =
     (let text = strip (join [separator sp] docs) in if text = [] then None else Some text)"

definition append_doc :: "splitter \<Rightarrow> string list \<Rightarrow> string list \<Rightarrow> string list" where
  "append_doc sp docs current_doc =
     (case join_docs sp current_doc of None \<Rightarrow> docs | Some doc \<Rightarrow> docs @ [doc])"

text \<open>The condition of the \<^verbatim>\<open>while\<close> loop that pops pieces off the front of
  \<^verbatim>\<open>current_doc\<close>; the separator has length 1.\<close>

definition keep_popping :: "splitter \<Rightarrow> int \<Rightarrow> string list \<Rightarrow> int \<Rightarrow> bool" where
  "keep_popping sp len current_doc total_len =
     (total_len > chunk_overlap sp \<or>
      (total_len + len + (if length current_doc > 0 then 1 else 0) > chunk_size sp \<and> total_len > 0))"

text \<open>The \<^verbatim>\<open>while\<close> loop; \<^verbatim>\<open>current_doc[0]\<close> on an empty list raises.\<close>

fun pop_loop :: "splitter \<Rightarrow> int \<Rightarrow> string list \<Rightarrow> int \<Rightarrow> error + (string list \<times> int)" where
  "pop_loop sp len [] total_len =
     (if keep_popping sp len [] total_len then Inl (Exception ''IndexError'') else Inr ([], total_len))"
| "pop_loop sp len (d0 # rest) total_len =
     (if keep_popping sp len (d0 # rest) total_len then
        pop_loop sp len rest
          (total_len - (int (length d0) + (if length (d0 # rest) > 1 then 1 else 0)))
      else Inr (d0 # rest, total_len))"

text \<open>The body of the \<^verbatim>\<open>for d in splits\<close> loop, on the loop's variables
  \<^verbatim>\<open>(docs, current_doc, total)\<close> (\<open>total_len\<close> here).\<close>

definition merge_step ::
  "splitter \<Rightarrow> string \<Rightarrow> string list \<times> string list \<times> int \<Rightarrow>
   error + (string list \<times> string list \<times> int)" where
  "merge_step sp d s =
     (case s of (docs, current_doc, total_len) \<Rightarrow>
        let len = int (length d) in
        (case (if total_len + len + (if length current_doc > 0 then 1 else 0) > chunk_size sp
               then (if length current_doc > 0
                     then (case pop_loop sp len current_doc total_len of
                             Inl e \<Rightarrow> Inl e
                           | Inr (current_doc', total_len') \<Rightarrow>
                               Inr (append_doc sp docs current_doc, current_doc', total_len'))
                     else Inr (docs, current_doc, total_len))
               else Inr (docs, current_doc, total_len)) of
           Inl e \<Rightarrow> Inl e
         | Inr (docs', current_doc', total_len') \<Rightarrow>
             Inr (docs', current_doc' @ [d],
                  total_len' + len + (if length (current_doc' @ [d]) > 1 then 1 else 0))))"

fun merge_loop ::
  "splitter \<Rightarrow> string list \<Rightarrow> string list \<times> string list \<times> int \<Rightarrow>
   error + (string list \<times> string list \<times> int)" where
  "merge_loop sp [] s = Inr s"
| "merge_loop sp (d # splits) s =
     (case merge_step sp d s of Inl e \<Rightarrow> Inl e | Inr s' \<Rightarrow> merge_loop sp splits s')"

definition merge_splits :: "splitter \<Rightarrow> string list \<Rightarrow> error + string list" where
  "merge_splits sp splits =
     (case merge_loop sp splits ([], [], 0) of
        Inl e \<Rightarrow> Inl e
      | Inr (docs, current_doc, total_len) \<Rightarrow> Inr (append_doc sp docs current_doc))"

definition split_text :: "splitter \<Rightarrow> string \<Rightarrow> error + string list" where
  "split_text sp text = merge_splits sp (filter (\<lambda>s. s \<noteq> []) (split_on (separator sp) text))"

text \<open>\<^verbatim>\<open>split_documents\<close>: every chunk of a document carries a copy of the
  document's metadata.\<close>

fun split_documents :: "splitter \<Rightarrow> document list \<Rightarrow> error + document list" where
  "split_documents sp [] = Inr []"
| "split_documents sp (doc # rest) =
     (case split_text sp (page_content doc) of
        Inl e \<Rightarrow> Inl e
      | Inr texts \<Rightarrow>
          (case split_documents sp rest of
             Inl e \<Rightarrow> Inl e
           | Inr chunks \<Rightarrow> Inr (map (\<lambda>t. doc\<lparr>page_content := t\<rparr>) texts @ chunks)))"

definition text_splitter :: splitter where
  "text_splitter = \<lparr>separator = CHR 0x0A, chunk_size = 1000, chunk_overlap = 200\<rparr>"

definition get_text_chunks :: "document list \<Rightarrow> error + document list" where
  "get_text_chunks documents = split_documents text_splitter documents"

subsection \<open>\<^verbatim>\<open>get_vectorstore\<close> and \<^verbatim>\<open>get_conversation_rag_chain\<close>\<close>

text \<open>
  The language model maps a prompt, a list of (role, content) messages, to a stream of
  text fragments. A vector store is modelled by its retriever, which maps a query to
  documents. \<open>services\<close> collects what the application gets from outside: the model,
  the index builder \<^verbatim>\<open>FAISS.from_documents\<close> with its embeddings, and Python's
  \<^verbatim>\<open>str\<close> of the history list, which fills \<^verbatim>\<open>{chat_history}\<close> in the
  rewriting prompt.
\<close>

type_synonym prompt = "(string \<times> string) list"
type_synonym llm = "prompt \<Rightarrow> string generator"
type_synonym vectorstore = "string \<Rightarrow> error + document list"

record services =
  svc_llm :: llm
  svc_from_documents :: "document list \<Rightarrow> error + vectorstore"
  svc_str :: "message list \<Rightarrow> string"

definition get_vectorstore :: "services \<Rightarrow> document list \<Rightarrow> error + vectorstore" where
  "get_vectorstore svc text_chunks = svc_from_documents svc text_chunks"

definition contextualize_q_system_prompt :: string where
  "contextualize_q_system_prompt =
     ''Given a chat history and the latest user question '' @
     ''which might reference context in the chat history, '' @
     ''formulate a standalone question which can be understood '' @
     ''without the chat history. Do NOT answer the question, '' @
     ''just reformulate it if needed and otherwise return it as is.''"

definition contextualize_q_prompt :: "services \<Rightarrow> message list \<Rightarrow> string \<Rightarrow> prompt" where
  "contextualize_q_prompt svc history question =
     [(''system'', contextualize_q_system_prompt),
      (''human'', svc_str svc history @ [CHR 0x0A, CHR 0x0A] @ ''Follow Up Input: '' @ question)]"

text \<open>A model call whose whole output is needed: the fragments, concatenated.\<close>

definition invoke :: "llm \<Rightarrow> prompt \<Rightarrow> error + string" where
  "invoke model p = write_stream (model p)"

text \<open>
  The library's \<^verbatim>\<open>create_history_aware_retriever\<close> is a branch: with a false
  (empty) \<^verbatim>\<open>chat_history\<close> the input goes to the retriever as it is; otherwise the
  prompt goes to the model and the model's output goes to the retriever.
\<close>

definition create_history_aware_retriever ::
  "llm \<Rightarrow> vectorstore \<Rightarrow> (message list \<Rightarrow> string \<Rightarrow> prompt) \<Rightarrow>
   message list \<Rightarrow> string \<Rightarrow> error + document list" where
  "create_history_aware_retriever model retriever prompt history question =
     (if history = [] then retriever question
      else (case invoke model (prompt history question) of
              Inl e \<Rightarrow> Inl e
            | Inr query \<Rightarrow> retriever query))"

definition qa_system_prompt :: string where
  "qa_system_prompt =
     ''You are an assistant for question-answering tasks. Use the following pieces of retrieved context to answer '' @
     ''the question. If you don't know the answer, just say that you don't know. Be concise and helpful.'' @
     [CHR 0x0A, CHR 0x0A]"

definition qa_prompt :: "string \<Rightarrow> string \<Rightarrow> prompt" where
  "qa_prompt context_text question =
     [(''system'', qa_system_prompt @ context_text), (''human'', question)]"

text \<open>\<^verbatim>\<open>create_stuff_documents_chain\<close>: the documents' contents, joined by a blank
  line, fill \<^verbatim>\<open>{context}\<close>; the chain's \<^verbatim>\<open>input\<close> fills \<^verbatim>\<open>{input}\<close>.\<close>

definition create_stuff_documents_chain ::
  "llm \<Rightarrow> (string \<Rightarrow> string \<Rightarrow> prompt) \<Rightarrow> document list \<Rightarrow> string \<Rightarrow> string generator" where
  "create_stuff_documents_chain model prompt docs question =
     model (prompt (join [CHR 0x0A, CHR 0x0A] (map page_content docs)) question)"

fun answer_chunks :: "string generator \<Rightarrow> chunk generator" where
  "answer_chunks Done = Done"
| "answer_chunks (Raise e) = Raise e"
| "answer_chunks (Yield a g) =
     Yield \<lparr>ch_input = None, ch_chat_history = None, ch_context = None, ch_answer = Some a\<rparr>
       (answer_chunks g)"

text \<open>\<^verbatim>\<open>create_retrieval_chain\<close>, streamed: the inputs pass through, the retrieved
  documents are assigned to \<^verbatim>\<open>context\<close>, and the fragments of the answer follow
  under \<^verbatim>\<open>answer\<close>.\<close>

definition create_retrieval_chain ::
  "(message list \<Rightarrow> string \<Rightarrow> error + document list) \<Rightarrow>
   (document list \<Rightarrow> string \<Rightarrow> string generator) \<Rightarrow> chain" where
  "create_retrieval_chain retrieve combine history question =
     Yield \<lparr>ch_input = Some question, ch_chat_history = Some history,
            ch_context = None, ch_answer = None\<rparr>
       (case retrieve history question of
          Inl e \<Rightarrow> Raise e
        | Inr docs \<Rightarrow>
            Yield \<lparr>ch_input = None, ch_chat_history = None,
                   ch_context = Some docs, ch_answer = None\<rparr>
              (answer_chunks (combine docs question)))"

definition get_conversation_rag_chain :: "services \<Rightarrow> vectorstore \<Rightarrow> chain" where
  "get_conversation_rag_chain svc vectorstore =
     create_retrieval_chain
       (create_history_aware_retriever (svc_llm svc) vectorstore (contextualize_q_prompt svc))
       (create_stuff_documents_chain (svc_llm svc) qa_prompt)"

subsection \<open>The Process button and the runs of \<^verbatim>\<open>main\<close>\<close>

text \<open>Lines 99 to 108.\<close>

definition main_process ::
  "services \<Rightarrow> uploaded_file list \<Rightarrow> session_state \<Rightarrow> session_state \<times> outcome" where
  "main_process svc pdf_docs st =
     (if pdf_docs \<noteq> [] then
        (case get_pdf_text_and_metadata pdf_docs of
           Inl e \<Rightarrow> (st, Raised e)
         | Inr documents \<Rightarrow>
             (case get_text_chunks documents of
                Inl e \<Rightarrow> (st, Raised e)
              | Inr text_chunks \<Rightarrow>
                  (case get_vectorstore svc text_chunks of
                     Inl e \<Rightarrow> (st, Raised e)
                   | Inr vectorstore \<Rightarrow>
                       (st\<lparr>conversation := Some (get_conversation_rag_chain svc vectorstore)\<rparr>,
                        Success ''Processing complete!''))))
      else (st, Warning ''Please upload at least one PDF file.''))"

text \<open>One run of the script handles one interaction.\<close>

datatype event = Process "uploaded_file list" | ClearChat | Question "string option"

fun run_main :: "services \<Rightarrow> event \<Rightarrow> session_state \<Rightarrow> session_state \<times> outcome" where
  "run_main svc (Process pdf_docs) st = main_process svc pdf_docs st"
| "run_main svc ClearChat st = main_clear st"
| "run_main svc (Question user_question) st = main_question user_question st"

fun session :: "services \<Rightarrow> event list \<Rightarrow> session_state \<Rightarrow> session_state" where
  "session svc [] st = st"
| "session svc (ev # evs) st = session svc evs (fst (run_main svc ev st))"

subsection \<open>Reference definitions and sample inputs\<close>

text \<open>The records the extractor should give for one file: the non-empty pages, each
  numbered by its position in the file, counted from 1.\<close>

definition page_records :: "string \<Rightarrow> string list \<Rightarrow> document list" where
  "page_records nm pages =
     map (\<lambda>i. \<lparr>page_content = pages ! i, meta_source = nm, meta_page = i + 1\<rparr>)
       (filter (\<lambda>i. pages ! i \<noteq> []) [0..<length pages])"

definition mk_doc :: "string \<Rightarrow> nat \<times> string \<Rightarrow> document" where
  "mk_doc nm p = \<lparr>page_content = snd p, meta_source = nm, meta_page = fst p + 1\<rparr>"

definition frag :: "string \<Rightarrow> chunk" where
  "frag a = \<lparr>ch_input = None, ch_chat_history = None, ch_context = None, ch_answer = Some a\<rparr>"

text \<open>A chain whose stream breaks after two fragments.\<close>

definition failing_chain :: chain where
  "failing_chain history question =
     Yield (frag ''The '') (Yield (frag ''answer'') (Raise (Exception ''stream broke'')))"

text \<open>Sample services: a model with a fixed answer, a model that fails, a model that
  repeats the last message of its prompt, and a store that returns its query as the
  content of one document.\<close>

definition canned_llm :: llm where
  "canned_llm p = Yield ''It is '' (Yield ''Y.'' Done)"


definition echo_llm :: llm where
  "echo_llm p = Yield (snd (last p)) Done"

definition echo_store :: vectorstore where
  "echo_store query = Inr [\<lparr>page_content = query, meta_source = ''a.pdf'', meta_page = 3\<rparr>]"

definition sample_services :: "llm \<Rightarrow> services" where
  "sample_services model =
     \<lparr>svc_llm = model, svc_from_documents = (\<lambda>chunks. Inr echo_store),
      svc_str = (\<lambda>history. ''[history]'')\<rparr>"

definition passthrough :: "message list \<Rightarrow> string \<Rightarrow> chunk" where
  "passthrough history question =
     \<lparr>ch_input = Some question, ch_chat_history = Some history,
      ch_context = None, ch_answer = None\<rparr>"

definition context_chunk :: "document list \<Rightarrow> chunk" where
  "context_chunk docs =
     \<lparr>ch_input = None, ch_chat_history = None, ch_context = Some docs, ch_answer = None\<rparr>"

definition has_greeting :: "session_state \<Rightarrow> bool" where
  "has_greeting st = (\<exists>rest. chat_history st = SystemMessage greeting # rest)"

definition sample_pdf :: uploaded_file where
  "sample_pdf = \<lparr>file_name = ''a.pdf'', pdf_reader = Inr [''one'', [], ''three'']\<rparr>"

text \<open>For the splitter's loop: the length of the join of the pieces in
  \<^verbatim>\<open>current_doc\<close>; pieces as \<^verbatim>\<open>split_text\<close> produces them (non-empty,
  without the separator); a chunk text that is within the size or is one single piece;
  the loop's invariant; and the test that a piece does not fit behind the current ones.\<close>

definition jlen :: "splitter \<Rightarrow> string list \<Rightarrow> int" where
  "jlen sp cur = int (length (join [separator sp] cur))"

definition pieces_ok :: "splitter \<Rightarrow> string list \<Rightarrow> bool" where
  "pieces_ok sp ps = (\<forall>p\<in>set ps. p \<noteq> [] \<and> separator sp \<notin> set p)"

definition text_ok :: "splitter \<Rightarrow> string \<Rightarrow> bool" where
  "text_ok sp c = (int (length c) \<le> chunk_size sp \<or> separator sp \<notin> set c)"

definition merge_inv :: "splitter \<Rightarrow> string list \<times> string list \<times> int \<Rightarrow> bool" where
  "merge_inv sp s =
     (case s of (docs, cur, total_len) \<Rightarrow>
        total_len = jlen sp cur \<and> pieces_ok sp cur \<and>
        (total_len \<le> chunk_size sp \<or> length cur \<le> 1) \<and>
        (\<forall>c\<in>set docs. text_ok sp c))"

definition overflows :: "splitter \<Rightarrow> string \<Rightarrow> string list \<Rightarrow> bool" where
  "overflows sp d cur =
     (cur \<noteq> [] \<and> jlen sp cur + int (length d) + 1 > chunk_size sp)"

text \<open>Two chunk texts share an overlap region of \<open>n\<close> characters: the last
  \<open>n\<close> characters of the first are the first \<open>n\<close> of the second.\<close>

definition shares_overlap :: "nat \<Rightarrow> string \<Rightarrow> string \<Rightarrow> bool" where
  "shares_overlap n c1 c2 =
     (n \<le> length c1 \<and> n \<le> length c2 \<and> drop (length c1 - n) c1 = take n c2)"

text \<open>A page of \<^verbatim>\<open>a.pdf\<close> with the given text.\<close>

definition line_page :: "string \<Rightarrow> document" where
  "line_page t = \<lparr>page_content = t, meta_source = ''a.pdf'', meta_page = 1\<rparr>"

section \<open>Properties\<close>

subsection \<open>Streams\<close>

lemma raised_answers: "raised (answers g) = raised g"
  by (induction g) (auto split: option.splits)

lemma write_stream_raised: "raised g = Some e \<Longrightarrow> write_stream g = Inl e"
  by (induction g) auto

subsection \<open>The text extractor\<close>

lemma page_loop_enumerate:
  "page_loop nm k pages acc =
     acc @ map (mk_doc nm) (filter (\<lambda>p. snd p \<noteq> []) (enumerate k pages))"
  by (induction pages arbitrary: k acc) (simp_all add: mk_doc_def)

lemma enumerate_nth: "enumerate 0 xs = map (\<lambda>i. (i, xs ! i)) [0..<length xs]"
  by (rule nth_equalityI) (simp_all add: nth_enumerate_eq)

lemma page_loop_records: "page_loop nm 0 pages acc = acc @ page_records nm pages"
  by (simp add: page_loop_enumerate enumerate_nth page_records_def filter_map comp_def mk_doc_def)

lemma pdf_loop_records:
  "\<forall>pdf\<in>set pdf_docs. \<not> isl (pdf_reader pdf) \<Longrightarrow>
   pdf_loop pdf_docs acc =
     Inr (acc @ concat (map (\<lambda>pdf. page_records (file_name pdf) (projr (pdf_reader pdf))) pdf_docs))"
proof (induction pdf_docs arbitrary: acc)
  case Nil
  then show ?case by simp
next
  case (Cons pdf rest)
  then obtain pages where "pdf_reader pdf = Inr pages"
    by (cases "pdf_reader pdf") auto
  with Cons show ?case by (simp add: page_loop_records)
qed

lemma page_records_contents:
  "map page_content (page_records nm pages) = filter (\<lambda>t. t \<noteq> []) pages"
proof -
  have "map page_content (page_records nm pages) =
          map (\<lambda>i. pages ! i) (filter (\<lambda>i. pages ! i \<noteq> []) [0..<length pages])"
    by (simp add: page_records_def comp_def)
  also have "\<dots> = filter (\<lambda>t. t \<noteq> []) (map (\<lambda>i. pages ! i) [0..<length pages])"
    by (simp add: filter_map comp_def)
  also have "\<dots> = filter (\<lambda>t. t \<noteq> []) pages"
    by (simp add: map_nth)
  finally show ?thesis .
qed

text \<open>
  Claim C5, as the code has it. A page whose extracted text is the empty string is
  skipped: when every uploaded file is readable the extractor raises nothing, and the
  contents of its records are exactly the non-empty page texts, file by file, in page
  order. The test is \<^verbatim>\<open>if text\<close>, so a page of white space only is not empty
  and does give a record.
\<close>

theorem empty_pages_skipped:
  assumes "\<forall>pdf\<in>set pdf_docs. \<not> isl (pdf_reader pdf)"
  shows "\<exists>documents. get_pdf_text_and_metadata pdf_docs = Inr documents \<and>
           map page_content documents =
             concat (map (\<lambda>pdf. filter (\<lambda>text. text \<noteq> []) (projr (pdf_reader pdf))) pdf_docs)"
  using pdf_loop_records [OF assms, of "[]"]
  by (simp add: get_pdf_text_and_metadata_def map_concat comp_def page_records_contents)

theorem empty_pages_skipped_witness:
  "\<exists>documents. get_pdf_text_and_metadata
      [\<lparr>file_name = ''a.pdf'', pdf_reader = Inr [[], ''two'', '' '']\<rparr>] = Inr documents \<and>
     map page_content documents = [''two'', '' '']"
  using empty_pages_skipped
    [of "[\<lparr>file_name = ''a.pdf'', pdf_reader = Inr [[], ''two'', '' '']\<rparr>]"]
  by simp

text \<open>Claim C5 as stated fails: a page whose text is one blank gives a record.\<close>

theorem whitespace_page_kept_counterexample:
  "whitespace_only '' '' \<and>
   get_pdf_text_and_metadata [\<lparr>file_name = ''a.pdf'', pdf_reader = Inr ['' '']\<rparr>] =
     Inr [\<lparr>page_content = '' '', meta_source = ''a.pdf'', meta_page = 1\<rparr>]"
  by (simp add: whitespace_only_def is_space_def get_pdf_text_and_metadata_def)

text \<open>
  Claim C9. The page number of a record is the page's position in its file, counted
  from 1 (the enumeration index plus one): for readable files the extractor returns,
  file by file, the non-empty pages \<open>pages ! i\<close> numbered \<open>i + 1\<close>, so a skipped
  page leaves a gap and the later pages are not renumbered.
\<close>

theorem page_numbers_keep_positions:
  assumes "\<forall>pdf\<in>set pdf_docs. \<not> isl (pdf_reader pdf)"
  shows "get_pdf_text_and_metadata pdf_docs =
           Inr (concat (map (\<lambda>pdf. page_records (file_name pdf) (projr (pdf_reader pdf))) pdf_docs))"
  using pdf_loop_records [OF assms, of "[]"] by (simp add: get_pdf_text_and_metadata_def)

theorem page_numbers_keep_positions_witness:
  "get_pdf_text_and_metadata
     [\<lparr>file_name = ''a.pdf'', pdf_reader = Inr [''one'', [], ''three'']\<rparr>] =
   Inr [\<lparr>page_content = ''one'', meta_source = ''a.pdf'', meta_page = 1\<rparr>,
        \<lparr>page_content = ''three'', meta_source = ''a.pdf'', meta_page = 3\<rparr>]"
  using page_numbers_keep_positions
    [of "[\<lparr>file_name = ''a.pdf'', pdf_reader = Inr [''one'', [], ''three'']\<rparr>]"]
  by (simp add: page_records_def)

subsection \<open>The conversation state\<close>

text \<open>
  Claim C7. Clearing the chat history leaves exactly one turn, the System greeting,
  whatever the state was.
\<close>

theorem clear_yields_single_system_turn:
  "chat_history (fst (main_clear st)) = [SystemMessage greeting]"
  by (simp add: main_clear_def)

text \<open>
  Claim C2. When the chain's stream raises, after any number of fragments, the run
  ends with that exception and the session state is the one before the question:
  no Human turn and no AI turn is appended.
\<close>

theorem failed_stream_leaves_state:
  assumes "conversation st = Some conv" and "q \<noteq> []"
    and "raised (conv (chat_history st) q) = Some e"
  shows "main_question (Some q) st = (st, Raised e)"
proof -
  have "write_stream (answers (conv (chat_history st) q)) = Inl e"
    using assms(3) by (simp add: write_stream_raised raised_answers)
  with assms(1,2) show ?thesis by (simp add: main_question_def)
qed

theorem failed_stream_leaves_state_witness:
  "main_question (Some ''What is X?'')
     \<lparr>conversation = Some failing_chain, chat_history = [SystemMessage greeting]\<rparr>
   = (\<lparr>conversation = Some failing_chain, chat_history = [SystemMessage greeting]\<rparr>,
      Raised (Exception ''stream broke''))"
  using failed_stream_leaves_state
    [of "\<lparr>conversation = Some failing_chain, chat_history = [SystemMessage greeting]\<rparr>"
        failing_chain "''What is X?''" "Exception ''stream broke''"]
  by (simp add: failing_chain_def)



subsection \<open>Turns of a session\<close>

lemma main_process_history: "chat_history (fst (main_process svc pdf_docs st)) = chat_history st"
  by (simp add: main_process_def split: sum.splits)

lemma main_question_history:
  "chat_history (fst (main_question uq st)) = chat_history st \<or>
   (\<exists>q r. chat_history (fst (main_question uq st)) = chat_history st @ [Human q, AI r []])"
  by (simp add: main_question_def split: option.splits sum.splits)

lemma run_main_extends:
  "ev \<noteq> ClearChat \<Longrightarrow>
   chat_history (fst (run_main svc ev st)) = chat_history st \<or>
   (\<exists>q r. chat_history (fst (run_main svc ev st)) = chat_history st @ [Human q, AI r []])"
  by (cases ev) (simp_all add: main_process_history main_question_history)

lemma run_main_greeting: "has_greeting st \<Longrightarrow> has_greeting (fst (run_main svc ev st))"
proof (cases "ev = ClearChat")
  case True
  then show ?thesis by (simp add: has_greeting_def main_clear_def)
next
  case False
  assume "has_greeting st"
  then obtain rest where "chat_history st = SystemMessage greeting # rest"
    by (auto simp: has_greeting_def)
  with run_main_extends [OF False, of svc st] show ?thesis
    by (auto simp: has_greeting_def)
qed

lemma session_greeting: "has_greeting st \<Longrightarrow> has_greeting (session svc evs st)"
  by (induction evs arbitrary: st) (simp_all add: run_main_greeting)

lemma initial_greeting: "has_greeting initial_state"
  by (simp add: has_greeting_def initial_state_def)


lemma sample_chain_stream:
  "get_conversation_rag_chain (sample_services canned_llm) echo_store
      [SystemMessage greeting] ''What is X?'' =
   Yield (passthrough [SystemMessage greeting] ''What is X?'')
     (Yield (context_chunk [\<lparr>page_content = ''It is Y.'', meta_source = ''a.pdf'', meta_page = 3\<rparr>])
        (Yield (frag ''It is '') (Yield (frag ''Y.'') Done)))"
  by (simp add: get_conversation_rag_chain_def create_retrieval_chain_def
      create_history_aware_retriever_def create_stuff_documents_chain_def invoke_def
      sample_services_def canned_llm_def echo_store_def passthrough_def context_chunk_def frag_def)

text \<open>
  Claim C10. In every state a session reaches, the chat history starts with the System
  greeting. A run other than Clear keeps all turns: it leaves the history as it is or
  appends exactly a Human turn followed by an AI turn; a question whose stream
  completes appends these two; processing documents does not touch the history.
\<close>

theorem history_grows_behind_greeting:
  "(\<exists>rest. chat_history (session svc evs initial_state) = SystemMessage greeting # rest) \<and>
   (ev \<noteq> ClearChat \<longrightarrow>
      chat_history (fst (run_main svc ev st)) = chat_history st \<or>
      (\<exists>q' r'. chat_history (fst (run_main svc ev st)) = chat_history st @ [Human q', AI r' []])) \<and>
   (conversation st = Some conv \<and> q \<noteq> [] \<and>
      write_stream (answers (conv (chat_history st) q)) = Inr r \<longrightarrow>
      main_question (Some q) st =
        (st\<lparr>chat_history := chat_history st @ [Human q, AI r []]\<rparr>, Rerun)) \<and>
   chat_history (fst (main_process svc pdf_docs st)) = chat_history st"
proof -
  have "\<exists>rest. chat_history (session svc evs initial_state) = SystemMessage greeting # rest"
    using session_greeting [OF initial_greeting, of svc evs] by (simp add: has_greeting_def)
  moreover have "ev \<noteq> ClearChat \<longrightarrow>
      chat_history (fst (run_main svc ev st)) = chat_history st \<or>
      (\<exists>q' r'. chat_history (fst (run_main svc ev st)) = chat_history st @ [Human q', AI r' []])"
    using run_main_extends by blast
  moreover have "conversation st = Some conv \<and> q \<noteq> [] \<and>
      write_stream (answers (conv (chat_history st) q)) = Inr r \<longrightarrow>
      main_question (Some q) st =
        (st\<lparr>chat_history := chat_history st @ [Human q, AI r []]\<rparr>, Rerun)"
    by (simp add: main_question_def)
  ultimately show ?thesis by (simp add: main_process_history)
qed

theorem history_grows_behind_greeting_witness:
  "(\<exists>rest. chat_history (session (sample_services canned_llm)
        [Process [sample_pdf], Question (Some ''What is X?''), Process []] initial_state) =
      SystemMessage greeting # rest) \<and>
   main_question (Some ''What is X?'')
     \<lparr>conversation = Some (get_conversation_rag_chain (sample_services canned_llm) echo_store),
      chat_history = [SystemMessage greeting]\<rparr> =
   (\<lparr>conversation = Some (get_conversation_rag_chain (sample_services canned_llm) echo_store),
     chat_history = [SystemMessage greeting, Human ''What is X?'', AI ''It is Y.'' []]\<rparr>, Rerun) \<and>
   chat_history (fst (main_process (sample_services canned_llm) [sample_pdf]
     \<lparr>conversation = Some (get_conversation_rag_chain (sample_services canned_llm) echo_store),
      chat_history = [SystemMessage greeting]\<rparr>)) = [SystemMessage greeting]"
proof -
  let ?conv = "get_conversation_rag_chain (sample_services canned_llm) echo_store"
  let ?st = "\<lparr>conversation = Some ?conv, chat_history = [SystemMessage greeting]\<rparr>"
  have pre: "conversation ?st = Some ?conv \<and> ''What is X?'' \<noteq> [] \<and>
      write_stream (answers (?conv (chat_history ?st) ''What is X?'')) = Inr ''It is Y.''"
    by (simp add: sample_chain_stream passthrough_def context_chunk_def frag_def)
  show ?thesis
    using pre history_grows_behind_greeting
      [of "sample_services canned_llm"
          "[Process [sample_pdf], Question (Some ''What is X?''), Process []]"
          "Question (Some ''What is X?'')" ?st ?conv "''What is X?''" "''It is Y.''"
          "[sample_pdf]"]
    by simp
qed

text \<open>
  Claim C1, evaluated on the code. The chain passes one document of page 3 of
  \<^verbatim>\<open>a.pdf\<close> to the answering step as context, the stream completes, and the AI
  turn that \<^verbatim>\<open>main\<close> appends carries the empty list: no source is cited.
\<close>

theorem ai_turn_cites_nothing:
  "stream_context (get_conversation_rag_chain (sample_services canned_llm) echo_store
      [SystemMessage greeting] ''What is X?'') =
     [\<lparr>page_content = ''It is Y.'', meta_source = ''a.pdf'', meta_page = 3\<rparr>] \<and>
   main_question (Some ''What is X?'')
     \<lparr>conversation = Some (get_conversation_rag_chain (sample_services canned_llm) echo_store),
      chat_history = [SystemMessage greeting]\<rparr> =
   (\<lparr>conversation = Some (get_conversation_rag_chain (sample_services canned_llm) echo_store),
     chat_history = [SystemMessage greeting, Human ''What is X?'', AI ''It is Y.'' []]\<rparr>, Rerun) \<and>
   rendered_sources (AI ''It is Y.'' []) = {}"
  by (simp add: main_question_def sample_chain_stream passthrough_def context_chunk_def frag_def)

subsection \<open>The chain\<close>




text \<open>
  Claim C8. Whatever query the retrieval used, the prompt of the answering call has the
  retrieved context in its system message and the user's question, as submitted, as its
  human message.
\<close>

theorem answer_prompt_has_literal_question:
  assumes "create_history_aware_retriever (svc_llm svc) vs (contextualize_q_prompt svc)
             history q = Inr docs"
  shows "get_conversation_rag_chain svc vs history q =
           Yield (passthrough history q)
             (Yield (context_chunk docs)
                (answer_chunks (svc_llm svc
                   [(''system'', qa_system_prompt @ join [CHR 0x0A, CHR 0x0A] (map page_content docs)),
                    (''human'', q)])))"
  using assms
  by (simp add: get_conversation_rag_chain_def create_retrieval_chain_def
      create_stuff_documents_chain_def qa_prompt_def passthrough_def context_chunk_def)

theorem answer_prompt_has_literal_question_witness:
  "get_conversation_rag_chain (sample_services echo_llm) echo_store
      [SystemMessage greeting] ''What is X?'' =
   Yield (passthrough [SystemMessage greeting] ''What is X?'')
     (Yield (context_chunk
        [\<lparr>page_content = ''[history]'' @ [CHR 0x0A, CHR 0x0A] @ ''Follow Up Input: What is X?'',
          meta_source = ''a.pdf'', meta_page = 3\<rparr>])
        (Yield (frag ''What is X?'') Done))"
proof -
  have pre: "create_history_aware_retriever (svc_llm (sample_services echo_llm)) echo_store
       (contextualize_q_prompt (sample_services echo_llm)) [SystemMessage greeting] ''What is X?'' =
     Inr [\<lparr>page_content = ''[history]'' @ [CHR 0x0A, CHR 0x0A] @ ''Follow Up Input: What is X?'',
          meta_source = ''a.pdf'', meta_page = 3\<rparr>]"
    by (simp add: create_history_aware_retriever_def invoke_def sample_services_def
        echo_llm_def echo_store_def contextualize_q_prompt_def)
  show ?thesis
    using answer_prompt_has_literal_question [OF pre]
    by (simp add: sample_services_def echo_llm_def frag_def)
qed

subsection \<open>The text splitter\<close>

lemma join_snoc: "join sep (cur @ [d]) = (if cur = [] then d else join sep cur @ sep @ d)"
  by (induction sep cur rule: join.induct) auto

lemma jlen_Nil: "jlen sp [] = 0"
  by (simp add: jlen_def)

lemma jlen_Cons:
  "jlen sp (d0 # rest) = int (length d0) + (if rest = [] then 0 else 1) + jlen sp rest"
  by (cases rest) (simp_all add: jlen_def)

lemma jlen_snoc:
  "jlen sp (cur @ [d]) = jlen sp cur + int (length d) + (if cur = [] then 0 else 1)"
  by (simp add: jlen_def join_snoc)

lemma jlen_nonneg: "0 \<le> jlen sp cur"
  by (simp add: jlen_def)

lemma jlen_pos: "pieces_ok sp cur \<Longrightarrow> cur \<noteq> [] \<Longrightarrow> 0 < jlen sp cur"
proof (cases cur)
  case Nil
  assume "cur \<noteq> []"
  with Nil show ?thesis by simp
next
  case (Cons d0 rest)
  assume "pieces_ok sp cur"
  with Cons have "0 < int (length d0)" by (simp add: pieces_ok_def)
  with jlen_nonneg [of sp rest] show ?thesis
    unfolding Cons jlen_Cons by (simp add: jlen_Nil split: if_splits)
qed

lemma set_strip: "set (strip s) \<subseteq> set s"
proof -
  have "set (strip s) = set (dropWhile is_space (rev (dropWhile is_space s)))"
    by (simp add: strip_def)
  also have "\<dots> \<subseteq> set (rev (dropWhile is_space s))"
    by (rule set_dropWhileD [THEN subsetI]) 
  also have "\<dots> \<subseteq> set s"
    using set_dropWhileD by fastforce
  finally show ?thesis .
qed

lemma length_strip: "length (strip s) \<le> length s"
proof -
  have "length (strip s) = length (dropWhile is_space (rev (dropWhile is_space s)))"
    by (simp add: strip_def)
  also have "\<dots> \<le> length (rev (dropWhile is_space s))"
    by (rule length_dropWhile_le)
  also have "\<dots> \<le> length s"
    by (simp add: length_dropWhile_le)
  finally show ?thesis .
qed

lemma join_single_piece: "length cur \<le> 1 \<Longrightarrow> pieces_ok sp cur \<Longrightarrow>
  separator sp \<notin> set (join [separator sp] cur)"
  by (cases cur) (auto simp: pieces_ok_def)

lemma append_doc_ok:
  assumes "\<forall>c\<in>set docs. text_ok sp c" and "pieces_ok sp cur"
    and "jlen sp cur \<le> chunk_size sp \<or> length cur \<le> 1"
  shows "\<forall>c\<in>set (append_doc sp docs cur). text_ok sp c"
proof -
  have "text_ok sp (strip (join [separator sp] cur))"
  proof (cases "jlen sp cur \<le> chunk_size sp")
    case True
    then show ?thesis
      using length_strip [of "join [separator sp] cur"] by (simp add: text_ok_def jlen_def)
  next
    case False
    with assms(3) have "length cur \<le> 1" by simp
    then have "separator sp \<notin> set (join [separator sp] cur)"
      using assms(2) by (rule join_single_piece)
    then show ?thesis
      using set_strip [of "join [separator sp] cur"] by (auto simp: text_ok_def)
  qed
  with assms(1) show ?thesis
    by (auto simp: append_doc_def join_docs_def Let_def split: option.splits if_splits)
qed

lemma pop_loop_total:
  assumes "0 \<le> chunk_overlap sp"
  shows "pieces_ok sp cur \<Longrightarrow> total_len = jlen sp cur \<Longrightarrow>
    \<exists>kept. pop_loop sp len cur total_len = Inr (kept, jlen sp kept) \<and> suffix kept cur \<and>
      \<not> keep_popping sp len kept (jlen sp kept) \<and>
      (\<forall>s. suffix s cur \<and> length kept < length s \<longrightarrow> keep_popping sp len s (jlen sp s))"
proof (induction cur arbitrary: total_len)
  case Nil
  then show ?case using assms by (simp add: jlen_Nil keep_popping_def)
next
  case (Cons d0 rest)
  show ?case
  proof (cases "keep_popping sp len (d0 # rest) total_len")
    case True
    have ok: "pieces_ok sp rest" using Cons.prems(1) by (simp add: pieces_ok_def)
    have "total_len - (int (length d0) + (if length (d0 # rest) > 1 then 1 else 0)) = jlen sp rest"
      using Cons.prems(2) by (simp add: jlen_Cons)
    from Cons.IH [OF ok this [symmetric, symmetric]] obtain kept where
      "pop_loop sp len rest (total_len - (int (length d0) + (if length (d0 # rest) > 1 then 1 else 0)))
         = Inr (kept, jlen sp kept)" "suffix kept rest" "\<not> keep_popping sp len kept (jlen sp kept)"
      "\<forall>s. suffix s rest \<and> length kept < length s \<longrightarrow> keep_popping sp len s (jlen sp s)"
      by blast
    with True Cons.prems(2) show ?thesis by (auto simp: suffix_Cons)
  next
    case False
    have "\<forall>s. suffix s (d0 # rest) \<longrightarrow> \<not> length (d0 # rest) < length s"
      by (auto dest: suffix_length_le)
    with False Cons.prems(2) show ?thesis by auto
  qed
qed

lemma merge_step_shape:
  assumes ov: "0 \<le> chunk_overlap sp" and inv: "merge_inv sp (docs, cur, total_len)"
  shows "\<exists>kept. suffix kept cur \<and> \<not> keep_popping sp (int (length d)) kept (jlen sp kept) \<and>
           (\<forall>s. suffix s cur \<and> length kept < length s \<longrightarrow>
              keep_popping sp (int (length d)) s (jlen sp s)) \<and>
           (overflows sp d cur \<longrightarrow> kept \<noteq> cur) \<and>
           merge_step sp d (docs, cur, total_len) =
             Inr (if overflows sp d cur
                  then (append_doc sp docs cur, kept @ [d], jlen sp (kept @ [d]))
                  else (docs, cur @ [d], jlen sp (cur @ [d])))"
proof -
  from inv have tot: "total_len = jlen sp cur" and ok: "pieces_ok sp cur"
    by (simp_all add: merge_inv_def)
  from pop_loop_total [OF ov ok tot, of "int (length d)"] obtain kept where
    pop: "pop_loop sp (int (length d)) cur total_len = Inr (kept, jlen sp kept)"
    and suf: "suffix kept cur"
    and stop: "\<not> keep_popping sp (int (length d)) kept (jlen sp kept)"
    and most: "\<forall>s. suffix s cur \<and> length kept < length s \<longrightarrow>
              keep_popping sp (int (length d)) s (jlen sp s)"
    by blast
  show ?thesis
  proof (cases "overflows sp d cur")
    case True
    then have ne: "cur \<noteq> []" and big: "jlen sp cur + int (length d) + 1 > chunk_size sp"
      by (simp_all add: overflows_def)
    have "keep_popping sp (int (length d)) cur (jlen sp cur)"
      using ne big jlen_pos [OF ok ne] by (simp add: keep_popping_def)
    with stop have neq: "kept \<noteq> cur" by auto
    have "merge_step sp d (docs, cur, total_len) =
            Inr (append_doc sp docs cur, kept @ [d], jlen sp (kept @ [d]))"
      using ne big pop tot by (simp add: merge_step_def Let_def jlen_snoc)
    with True suf stop most neq show ?thesis by auto
  next
    case False
    have "merge_step sp d (docs, cur, total_len) = Inr (docs, cur @ [d], jlen sp (cur @ [d]))"
    proof (cases "cur = []")
      case True
      then show ?thesis using tot by (simp add: merge_step_def Let_def jlen_Cons jlen_Nil)
    next
      case ne: False
      with False have "\<not> jlen sp cur + int (length d) + 1 > chunk_size sp"
        by (simp add: overflows_def)
      with ne tot show ?thesis by (simp add: merge_step_def Let_def jlen_snoc)
    qed
    with False suf stop most show ?thesis by auto
  qed
qed

lemma pieces_ok_suffix: "suffix kept cur \<Longrightarrow> pieces_ok sp cur \<Longrightarrow> pieces_ok sp kept"
  by (auto simp: pieces_ok_def dest: set_mono_suffix)

lemma pieces_ok_snoc:
  "pieces_ok sp cur \<Longrightarrow> d \<noteq> [] \<Longrightarrow> separator sp \<notin> set d \<Longrightarrow> pieces_ok sp (cur @ [d])"
  by (simp add: pieces_ok_def)

lemma merge_step_inv:
  assumes ov: "0 \<le> chunk_overlap sp" and inv: "merge_inv sp s"
    and d: "d \<noteq> []" "separator sp \<notin> set d"
  shows "\<exists>s'. merge_step sp d s = Inr s' \<and> merge_inv sp s'"
proof -
  obtain docs cur total_len where s: "s = (docs, cur, total_len)"
    by (cases s) auto
  from inv s have tot: "total_len = jlen sp cur" and ok: "pieces_ok sp cur"
    and small: "jlen sp cur \<le> chunk_size sp \<or> length cur \<le> 1"
    and docs: "\<forall>c\<in>set docs. text_ok sp c"
    by (auto simp: merge_inv_def)
  from merge_step_shape [OF ov inv [unfolded s], of d] obtain kept where
    suf: "suffix kept cur"
    and stop: "\<not> keep_popping sp (int (length d)) kept (jlen sp kept)"
    and step: "merge_step sp d (docs, cur, total_len) =
             Inr (if overflows sp d cur
                  then (append_doc sp docs cur, kept @ [d], jlen sp (kept @ [d]))
                  else (docs, cur @ [d], jlen sp (cur @ [d])))"
    by blast
  show ?thesis
  proof (cases "overflows sp d cur")
    case True
    have okk: "pieces_ok sp kept" using suf ok by (rule pieces_ok_suffix)
    have "jlen sp (kept @ [d]) \<le> chunk_size sp \<or> length (kept @ [d]) \<le> 1"
    proof (cases "kept = []")
      case True
      then show ?thesis by simp
    next
      case False
      with stop jlen_pos [OF okk False] show ?thesis
        by (simp add: keep_popping_def jlen_snoc)
    qed
    moreover have "\<forall>c\<in>set (append_doc sp docs cur). text_ok sp c"
      using docs ok small by (rule append_doc_ok)
    ultimately have "merge_inv sp (append_doc sp docs cur, kept @ [d], jlen sp (kept @ [d]))"
      using pieces_ok_snoc [OF okk d] by (simp add: merge_inv_def)
    with True step s show ?thesis by simp
  next
    case False
    have "jlen sp (cur @ [d]) \<le> chunk_size sp \<or> length (cur @ [d]) \<le> 1"
    proof (cases "cur = []")
      case True
      then show ?thesis by simp
    next
      case ne: False
      with False show ?thesis by (simp add: overflows_def jlen_snoc)
    qed
    then have "merge_inv sp (docs, cur @ [d], jlen sp (cur @ [d]))"
      using pieces_ok_snoc [OF ok d] docs by (simp add: merge_inv_def)
    with False step s show ?thesis by simp
  qed
qed

lemma merge_loop_inv:
  assumes ov: "0 \<le> chunk_overlap sp"
  shows "merge_inv sp s \<Longrightarrow> pieces_ok sp splits \<Longrightarrow>
         \<exists>s'. merge_loop sp splits s = Inr s' \<and> merge_inv sp s'"
proof (induction splits arbitrary: s)
  case Nil
  then show ?case by simp
next
  case (Cons d splits)
  from Cons.prems(2) have d: "d \<noteq> []" "separator sp \<notin> set d" and rest: "pieces_ok sp splits"
    by (simp_all add: pieces_ok_def)
  from merge_step_inv [OF ov Cons.prems(1) d] obtain s1 where
    "merge_step sp d s = Inr s1" "merge_inv sp s1" by blast
  with Cons.IH [OF _ rest, of s1] show ?case by simp
qed

lemma merge_splits_ok:
  assumes "0 \<le> chunk_overlap sp" and "pieces_ok sp splits"
  shows "\<exists>texts. merge_splits sp splits = Inr texts \<and> (\<forall>c\<in>set texts. text_ok sp c)"
proof -
  have "merge_inv sp ([], [], 0)" by (simp add: merge_inv_def jlen_Nil pieces_ok_def)
  from merge_loop_inv [OF assms(1) this assms(2)] obtain docs cur total_len where
    loop: "merge_loop sp splits ([], [], 0) = Inr (docs, cur, total_len)"
    and inv: "merge_inv sp (docs, cur, total_len)"
    by (metis prod_cases3)
  from inv have "\<forall>c\<in>set (append_doc sp docs cur). text_ok sp c"
    by (intro append_doc_ok) (auto simp: merge_inv_def)
  with loop show ?thesis by (simp add: merge_splits_def)
qed

lemma split_on_no_sep: "\<forall>p\<in>set (split_on sep t). sep \<notin> set p"
  by (induction t) (auto split: list.splits)

lemma split_pieces_ok:
  "pieces_ok sp (filter (\<lambda>s. s \<noteq> []) (split_on (separator sp) t))"
  using split_on_no_sep [of "separator sp" t] by (simp add: pieces_ok_def)

lemma split_text_ok:
  assumes "0 \<le> chunk_overlap sp"
  shows "\<exists>texts. split_text sp t = Inr texts \<and> (\<forall>c\<in>set texts. text_ok sp c)"
  unfolding split_text_def using assms split_pieces_ok by (rule merge_splits_ok)

lemma split_documents_ok:
  assumes "0 \<le> chunk_overlap sp"
  shows "\<exists>chunks. split_documents sp documents = Inr chunks \<and>
           (\<forall>c\<in>set chunks. text_ok sp (page_content c) \<and>
              (\<exists>doc\<in>set documents. meta_source c = meta_source doc \<and> meta_page c = meta_page doc))"
proof (induction documents)
  case Nil
  then show ?case by simp
next
  case (Cons doc rest)
  from split_text_ok [OF assms, of "page_content doc"] obtain texts where
    t: "split_text sp (page_content doc) = Inr texts" "\<forall>c\<in>set texts. text_ok sp c"
    by blast
  from Cons obtain chunks where
    c: "split_documents sp rest = Inr chunks"
       "\<forall>c\<in>set chunks. text_ok sp (page_content c) \<and>
          (\<exists>doc\<in>set rest. meta_source c = meta_source doc \<and> meta_page c = meta_page doc)"
    by blast
  from t c show ?case by auto
qed

lemma split_on_line: "sep \<notin> set xs \<Longrightarrow> split_on sep xs = [xs]"
  by (induction xs) auto

lemma split_on_lines:
  "sep \<notin> set xs \<Longrightarrow> split_on sep (xs @ sep # ys) = xs # split_on sep ys"
  by (induction xs) auto

lemma strip_replicate: "\<not> is_space c \<Longrightarrow> strip (replicate n c) = replicate n c"
  by (simp add: strip_def)

lemma text_splitter_overlap: "0 \<le> chunk_overlap text_splitter"
  by (simp add: text_splitter_def)

lemma strip_ends:
  assumes "s \<noteq> []" and "\<not> is_space (hd s)" and "\<not> is_space (last s)"
  shows "strip s = s"
proof -
  have front: "dropWhile is_space s = s"
    using assms(2) by (simp add: dropWhile_eq_self_iff)
  have "hd (rev s) = last s"
    using assms(1) by (simp add: hd_rev)
  with assms(3) have "dropWhile is_space (rev s) = rev s"
    by (simp add: dropWhile_eq_self_iff)
  with front show ?thesis by (simp add: strip_def)
qed

lemma step_overlap:
  assumes ov: "0 \<le> chunk_overlap sp"
    and pieces: "filter (\<lambda>s. s \<noteq> []) (split_on (separator sp) t) = pre @ d # post"
    and loop: "merge_loop sp pre ([], [], 0) = Inr (docs, cur, total_len)"
    and step: "merge_step sp d (docs, cur, total_len) = Inr (docs', cur', total_len')"
    and new: "docs' \<noteq> docs"
  shows "\<exists>kept. cur' = kept @ [d] \<and> suffix kept cur \<and> kept \<noteq> cur \<and>
           jlen sp kept \<le> chunk_overlap sp \<and>
           (kept = [] \<or> jlen sp kept + int (length d) + 1 \<le> chunk_size sp) \<and>
           (\<forall>s. suffix s cur \<and> length kept < length s \<longrightarrow>
              chunk_overlap sp < jlen sp s \<or> chunk_size sp < jlen sp s + int (length d) + 1) \<and>
           docs' = docs @ [strip (join [separator sp] cur)]"
proof -
  have "pieces_ok sp (pre @ d # post)"
    using split_pieces_ok [of sp t] pieces by simp
  then have pre: "pieces_ok sp pre" by (simp add: pieces_ok_def)
  have "merge_inv sp ([], [], 0)" by (simp add: merge_inv_def jlen_Nil pieces_ok_def)
  from merge_loop_inv [OF ov this pre] loop have inv: "merge_inv sp (docs, cur, total_len)"
    by auto
  then have ok: "pieces_ok sp cur" by (simp add: merge_inv_def)
  from merge_step_shape [OF ov inv, of d] step obtain kept where
    suf: "suffix kept cur"
    and stop: "\<not> keep_popping sp (int (length d)) kept (jlen sp kept)"
    and most: "\<forall>s. suffix s cur \<and> length kept < length s \<longrightarrow>
              keep_popping sp (int (length d)) s (jlen sp s)"
    and neq: "overflows sp d cur \<longrightarrow> kept \<noteq> cur"
    and res: "(docs', cur', total_len') =
                (if overflows sp d cur
                 then (append_doc sp docs cur, kept @ [d], jlen sp (kept @ [d]))
                 else (docs, cur @ [d], jlen sp (cur @ [d])))"
    by auto
  from res new have over: "overflows sp d cur"
    by (auto split: if_splits)
  with res have docs': "docs' = append_doc sp docs cur" and cur': "cur' = kept @ [d]"
    by simp_all
  from docs' new have flushed: "docs' = docs @ [strip (join [separator sp] cur)]"
    by (auto simp: append_doc_def join_docs_def Let_def split: if_splits)
  from stop have short: "jlen sp kept \<le> chunk_overlap sp"
    by (simp add: keep_popping_def)
  have fits: "kept = [] \<or> jlen sp kept + int (length d) + 1 \<le> chunk_size sp"
  proof (cases "kept = []")
    case True
    then show ?thesis by simp
  next
    case False
    with stop jlen_pos [OF pieces_ok_suffix [OF suf ok] False] show ?thesis
      by (simp add: keep_popping_def)
  qed
  have longest: "\<forall>s. suffix s cur \<and> length kept < length s \<longrightarrow>
      chunk_overlap sp < jlen sp s \<or> chunk_size sp < jlen sp s + int (length d) + 1"
  proof (intro allI impI)
    fix s
    assume h: "suffix s cur \<and> length kept < length s"
    then have "s \<noteq> []" by auto
    with most h show "chunk_overlap sp < jlen sp s \<or> chunk_size sp < jlen sp s + int (length d) + 1"
      by (auto simp: keep_popping_def)
  qed
  from cur' suf neq over short fits longest flushed show ?thesis by blast
qed

lemma a_not_space:
  "\<not> is_space CHR ''a''" "\<not> is_space CHR ''b''" "\<not> is_space CHR ''c''" "\<not> is_space CHR ''d''"
  by (simp_all add: is_space_def)

lemma long_line_chunks:
  "get_text_chunks [line_page (replicate 1001 CHR ''a'')] =
     Inr [line_page (replicate 1001 CHR ''a'')]"
  by (simp add: get_text_chunks_def text_splitter_def split_text_def split_on_line
      merge_splits_def merge_step_def append_doc_def join_docs_def strip_replicate a_not_space
      line_page_def)

lemma three_lines_chunks:
  "get_text_chunks [line_page (replicate 600 CHR ''a'' @ CHR 0x0A # replicate 600 CHR ''b'' @
       CHR 0x0A # replicate 600 CHR ''c'')] =
     Inr [line_page (replicate 600 CHR ''a''), line_page (replicate 600 CHR ''b''),
          line_page (replicate 600 CHR ''c'')]"
  by (simp add: get_text_chunks_def text_splitter_def split_text_def split_on_line split_on_lines
      merge_splits_def merge_step_def append_doc_def join_docs_def strip_replicate a_not_space
      keep_popping_def line_page_def)

lemma four_lines_chunks:
  "get_text_chunks [line_page (replicate 500 CHR ''a'' @ CHR 0x0A # replicate 150 CHR ''b'' @
       CHR 0x0A # replicate 150 CHR ''c'' @ CHR 0x0A # replicate 300 CHR ''d'')] =
     Inr [line_page (replicate 500 CHR ''a'' @ CHR 0x0A # replicate 150 CHR ''b'' @
            CHR 0x0A # replicate 150 CHR ''c''),
          line_page (replicate 150 CHR ''c'' @ CHR 0x0A # replicate 300 CHR ''d'')]"
  by (simp add: get_text_chunks_def text_splitter_def split_text_def split_on_line split_on_lines
      merge_splits_def merge_step_def append_doc_def join_docs_def strip_ends a_not_space
      keep_popping_def line_page_def)

text \<open>
  Claim C4, as the code has it. The splitter raises nothing, and a chunk is longer than
  1000 characters only if it is one single line (it holds no separator): lines are
  never cut. Whenever the loop over the lines of a page closes a chunk and starts the
  next one with the line \<open>d\<close>, the lines it keeps from the closed chunk are the
  longest proper end part of that chunk's lines whose join is at most 200 characters
  long and fits, with \<open>d\<close> behind it, into 1000 characters (or is empty): every
  longer end part is over 200 characters or does not fit. So the overlap is at most
  200 characters and made of whole lines, not exactly 200; the next chunk starts
  with the kept lines, followed by \<open>d\<close>.
\<close>

theorem chunks_bounded_by_lines:
  "(\<exists>chunks. get_text_chunks documents = Inr chunks \<and>
      (\<forall>c\<in>set chunks. length (page_content c) \<le> 1000 \<or> CHR 0x0A \<notin> set (page_content c))) \<and>
   (filter (\<lambda>s. s \<noteq> []) (split_on (separator text_splitter) t) = pre @ d # post \<and>
    merge_loop text_splitter pre ([], [], 0) = Inr (docs, cur, total_len) \<and>
    merge_step text_splitter d (docs, cur, total_len) = Inr (docs', cur', total_len') \<and>
    docs' \<noteq> docs \<longrightarrow>
      (\<exists>kept. cur' = kept @ [d] \<and> suffix kept cur \<and> kept \<noteq> cur \<and>
         length (join [CHR 0x0A] kept) \<le> 200 \<and>
         (kept = [] \<or> length (join [CHR 0x0A] kept) + length d + 1 \<le> 1000) \<and>
         (\<forall>s. suffix s cur \<and> length kept < length s \<longrightarrow>
            200 < length (join [CHR 0x0A] s) \<or>
            1000 < length (join [CHR 0x0A] s) + length d + 1) \<and>
         docs' = docs @ [strip (join [CHR 0x0A] cur)]))"
proof -
  from split_documents_ok [OF text_splitter_overlap, of documents]
  have "\<exists>chunks. get_text_chunks documents = Inr chunks \<and>
      (\<forall>c\<in>set chunks. length (page_content c) \<le> 1000 \<or> CHR 0x0A \<notin> set (page_content c))"
    by (auto simp: get_text_chunks_def text_ok_def text_splitter_def)
  moreover have "filter (\<lambda>s. s \<noteq> []) (split_on (separator text_splitter) t) = pre @ d # post \<and>
    merge_loop text_splitter pre ([], [], 0) = Inr (docs, cur, total_len) \<and>
    merge_step text_splitter d (docs, cur, total_len) = Inr (docs', cur', total_len') \<and>
    docs' \<noteq> docs \<longrightarrow>
      (\<exists>kept. cur' = kept @ [d] \<and> suffix kept cur \<and> kept \<noteq> cur \<and>
         length (join [CHR 0x0A] kept) \<le> 200 \<and>
         (kept = [] \<or> length (join [CHR 0x0A] kept) + length d + 1 \<le> 1000) \<and>
         (\<forall>s. suffix s cur \<and> length kept < length s \<longrightarrow>
            200 < length (join [CHR 0x0A] s) \<or>
            1000 < length (join [CHR 0x0A] s) + length d + 1) \<and>
         docs' = docs @ [strip (join [CHR 0x0A] cur)])"
  proof
    assume h: "filter (\<lambda>s. s \<noteq> []) (split_on (separator text_splitter) t) = pre @ d # post \<and>
      merge_loop text_splitter pre ([], [], 0) = Inr (docs, cur, total_len) \<and>
      merge_step text_splitter d (docs, cur, total_len) = Inr (docs', cur', total_len') \<and>
      docs' \<noteq> docs"
    from step_overlap [OF text_splitter_overlap, of t pre d post docs cur total_len docs' cur' total_len'] h
    obtain kept where k: "cur' = kept @ [d]" "suffix kept cur" "kept \<noteq> cur"
      "jlen text_splitter kept \<le> chunk_overlap text_splitter"
      "kept = [] \<or> jlen text_splitter kept + int (length d) + 1 \<le> chunk_size text_splitter"
      "\<forall>s. suffix s cur \<and> length kept < length s \<longrightarrow>
         chunk_overlap text_splitter < jlen text_splitter s \<or>
         chunk_size text_splitter < jlen text_splitter s + int (length d) + 1"
      "docs' = docs @ [strip (join [separator text_splitter] cur)]"
      by blast
    from k(4) have k4: "length (join [CHR 0x0A] kept) \<le> 200"
      by (simp add: jlen_def text_splitter_def)
    from k(5) have k5: "kept = [] \<or> length (join [CHR 0x0A] kept) + length d + 1 \<le> 1000"
      by (simp add: jlen_def text_splitter_def) arith
    have k6: "\<forall>s. suffix s cur \<and> length kept < length s \<longrightarrow>
            200 < length (join [CHR 0x0A] s) \<or>
            1000 < length (join [CHR 0x0A] s) + length d + 1"
    proof (intro allI impI)
      fix s
      assume "suffix s cur \<and> length kept < length s"
      with k(6) have "chunk_overlap text_splitter < jlen text_splitter s \<or>
         chunk_size text_splitter < jlen text_splitter s + int (length d) + 1"
        by blast
      then show "200 < length (join [CHR 0x0A] s) \<or>
            1000 < length (join [CHR 0x0A] s) + length d + 1"
        by (simp add: jlen_def text_splitter_def) arith
    qed
    from k(7) have k7: "docs' = docs @ [strip (join [CHR 0x0A] cur)]"
      by (simp add: text_splitter_def)
    from k(1,2,3) k4 k5 k6 k7
    show "\<exists>kept. cur' = kept @ [d] \<and> suffix kept cur \<and> kept \<noteq> cur \<and>
         length (join [CHR 0x0A] kept) \<le> 200 \<and>
         (kept = [] \<or> length (join [CHR 0x0A] kept) + length d + 1 \<le> 1000) \<and>
         (\<forall>s. suffix s cur \<and> length kept < length s \<longrightarrow>
            200 < length (join [CHR 0x0A] s) \<or>
            1000 < length (join [CHR 0x0A] s) + length d + 1) \<and>
         docs' = docs @ [strip (join [CHR 0x0A] cur)]"
      by blast
  qed
  ultimately show ?thesis by blast
qed

theorem chunks_bounded_by_lines_witness:
  "get_text_chunks [line_page (replicate 500 CHR ''a'' @ CHR 0x0A # replicate 150 CHR ''b'' @
       CHR 0x0A # replicate 150 CHR ''c'' @ CHR 0x0A # replicate 300 CHR ''d'')] =
     Inr [line_page (replicate 500 CHR ''a'' @ CHR 0x0A # replicate 150 CHR ''b'' @
            CHR 0x0A # replicate 150 CHR ''c''),
          line_page (replicate 150 CHR ''c'' @ CHR 0x0A # replicate 300 CHR ''d'')] \<and>
   merge_step text_splitter (replicate 300 CHR ''d'')
       ([], [replicate 500 CHR ''a'', replicate 150 CHR ''b'', replicate 150 CHR ''c''], 802) =
     Inr ([replicate 500 CHR ''a'' @ CHR 0x0A # replicate 150 CHR ''b'' @
             CHR 0x0A # replicate 150 CHR ''c''],
          [replicate 150 CHR ''c'', replicate 300 CHR ''d''], 451) \<and>
   (\<exists>kept. kept = [replicate 150 CHR ''c''] \<and>
      suffix kept [replicate 500 CHR ''a'', replicate 150 CHR ''b'', replicate 150 CHR ''c''] \<and>
      length (join [CHR 0x0A] kept) \<le> 200 \<and>
      length (join [CHR 0x0A] kept) + length (replicate 300 CHR ''d'') + 1 \<le> 1000) \<and>
   200 < length (join [CHR 0x0A] [replicate 150 CHR ''b'', replicate 150 CHR ''c''])"
proof -
  let ?a = "replicate 500 CHR ''a''" and ?b = "replicate 150 CHR ''b''"
    and ?c = "replicate 150 CHR ''c''" and ?d = "replicate 300 CHR ''d''"
  have pieces: "filter (\<lambda>s. s \<noteq> [])
      (split_on (separator text_splitter) (?a @ CHR 0x0A # ?b @ CHR 0x0A # ?c @ CHR 0x0A # ?d)) =
      [?a, ?b, ?c] @ ?d # []"
    by (simp add: text_splitter_def split_on_line split_on_lines)
  have loop: "merge_loop text_splitter [?a, ?b, ?c] ([], [], 0) = Inr ([], [?a, ?b, ?c], 802)"
    by (simp add: text_splitter_def merge_step_def)
  have step: "merge_step text_splitter ?d ([], [?a, ?b, ?c], 802) =
      Inr ([?a @ CHR 0x0A # ?b @ CHR 0x0A # ?c], [?c, ?d], 451)"
    by (simp add: text_splitter_def merge_step_def keep_popping_def append_doc_def
        join_docs_def strip_ends a_not_space)
  have new: "[?a @ CHR 0x0A # ?b @ CHR 0x0A # ?c] \<noteq> ([]::string list)" by simp
  from chunks_bounded_by_lines
    [of "[line_page (?a @ CHR 0x0A # ?b @ CHR 0x0A # ?c @ CHR 0x0A # ?d)]"
        "?a @ CHR 0x0A # ?b @ CHR 0x0A # ?c @ CHR 0x0A # ?d"
        "[?a, ?b, ?c]" ?d "[]" "[]" "[?a, ?b, ?c]" 802
        "[?a @ CHR 0x0A # ?b @ CHR 0x0A # ?c]" "[?c, ?d]" 451]
    pieces loop step new
  obtain kept where k: "[?c, ?d] = kept @ [?d]" "suffix kept [?a, ?b, ?c]"
    "length (join [CHR 0x0A] kept) \<le> 200"
    "kept = [] \<or> length (join [CHR 0x0A] kept) + length ?d + 1 \<le> 1000"
    "\<forall>s. suffix s [?a, ?b, ?c] \<and> length kept < length s \<longrightarrow>
       200 < length (join [CHR 0x0A] s) \<or> 1000 < length (join [CHR 0x0A] s) + length ?d + 1"
    by blast
  from k(1) have kept: "kept = [?c]"
    by (metis append_Cons append_Nil append_same_eq)
  have "suffix [?b, ?c] [?a, ?b, ?c] \<and> length kept < length [?b, ?c]"
    using kept by (simp add: suffix_Cons)
  with k(5) have "200 < length (join [CHR 0x0A] [?b, ?c]) \<or>
      1000 < length (join [CHR 0x0A] [?b, ?c]) + length ?d + 1"
    by blast
  then have far: "200 < length (join [CHR 0x0A] [?b, ?c])" by simp
  from kept k(2,3,4) have "\<exists>kept. kept = [?c] \<and> suffix kept [?a, ?b, ?c] \<and>
      length (join [CHR 0x0A] kept) \<le> 200 \<and>
      length (join [CHR 0x0A] kept) + length ?d + 1 \<le> 1000"
    by auto
  with four_lines_chunks step far show ?thesis by blast
qed

text \<open>
  Claim C4 as stated fails. A page that is one line of 1001 characters is one chunk of
  1001 characters. A page of three lines of 600 characters gives three chunks, and the
  first two, neither of them the last of the page, have no overlap region of 200
  characters: each line is longer than the overlap, so none is carried over.
\<close>

theorem chunk_size_and_overlap_counterexample:
  "get_text_chunks [line_page (replicate 1001 CHR ''a'')] =
     Inr [line_page (replicate 1001 CHR ''a'')] \<and>
   length (page_content (line_page (replicate 1001 CHR ''a''))) > 1000 \<and>
   get_text_chunks [line_page (replicate 600 CHR ''a'' @ CHR 0x0A # replicate 600 CHR ''b'' @
       CHR 0x0A # replicate 600 CHR ''c'')] =
     Inr [line_page (replicate 600 CHR ''a''), line_page (replicate 600 CHR ''b''),
          line_page (replicate 600 CHR ''c'')] \<and>
   \<not> shares_overlap 200 (replicate 600 CHR ''a'') (replicate 600 CHR ''b'')"
  using long_line_chunks three_lines_chunks by (simp add: line_page_def shares_overlap_def)

end
